theory Spec2Isabelle
  imports Main "HOL-Library.Sublist"
begin

section \<open>Text as Python sees it\<close>

text \<open>
  A Python \<open>str\<close> is a sequence of Unicode code points, so a text is a list of natural
  numbers here (\<open>pystr\<close>); \<open>str\<close> turns an ASCII literal into its code points.
\<close>

type_synonym pystr = "nat list"

definition str :: "string \<Rightarrow> pystr" where
  "str s = map of_char s"

text \<open>\<open>str.isspace\<close> of one character, which is also the class \<open>\s\<close> of a \<open>str\<close> pattern.\<close>

definition isspace :: "nat \<Rightarrow> bool" where
  "isspace c \<longleftrightarrow>
     (9 \<le> c \<and> c \<le> 13) \<or> (28 \<le> c \<and> c \<le> 32) \<or> c = 133 \<or> c = 160 \<or> c = 5760 \<or>
     (8192 \<le> c \<and> c \<le> 8202) \<or> c = 8232 \<or> c = 8233 \<or> c = 8239 \<or> c = 8287 \<or> c = 12288"

text \<open>The line boundaries of \<open>str.splitlines\<close>.\<close>

definition linebreak :: "nat \<Rightarrow> bool" where
  "linebreak c \<longleftrightarrow>
     (10 \<le> c \<and> c \<le> 13) \<or> (28 \<le> c \<and> c \<le> 30) \<or> c = 133 \<or> c = 8232 \<or> c = 8233"

text \<open>The class \<open>[0-9a-fA-F]\<close>.\<close>

definition hexdigit :: "nat \<Rightarrow> bool" where
  "hexdigit c \<longleftrightarrow> (48 \<le> c \<and> c \<le> 57) \<or> (65 \<le> c \<and> c \<le> 70) \<or> (97 \<le> c \<and> c \<le> 102)"

definition LF :: nat where "LF = 10"
definition CR :: nat where "CR = 13"
definition QUOTE :: nat where "QUOTE = 34"
definition EQUALS :: nat where "EQUALS = 61"
definition HYPHEN :: nat where "HYPHEN = 45"

text \<open>\<open>s.strip()\<close>.\<close>

definition strip :: "pystr \<Rightarrow> pystr" where
  "strip s = rev (dropWhile isspace (rev (dropWhile isspace s)))"

text \<open>\<open>p in s\<close> on strings.\<close>

fun contains :: "pystr \<Rightarrow> pystr \<Rightarrow> bool" where
  "contains p [] = (p = [])"
| "contains p (c # s) = (prefix p (c # s) \<or> contains p s)"

text \<open>
  \<open>s.replace(old, new)\<close>: the occurrences of \<open>old\<close> are taken from the left and do not
  overlap; an empty \<open>old\<close> puts \<open>new\<close> around every character.
\<close>

function replace_from :: "pystr \<Rightarrow> pystr \<Rightarrow> pystr \<Rightarrow> pystr" where
  "replace_from old new [] = []"
| "replace_from old new (c # s) =
     (if old \<noteq> [] \<and> prefix old (c # s)
      then new @ replace_from old new (drop (length old - 1) s)
      else c # replace_from old new s)"
  by pat_completeness auto
termination
  by (relation "measure (\<lambda>(old, new, s). length s)") auto

definition replace :: "pystr \<Rightarrow> pystr \<Rightarrow> pystr \<Rightarrow> pystr" where
  "replace old new s =
     (if old = [] then new @ concat (map (\<lambda>c. c # new) s) else replace_from old new s)"

text \<open>
  \<open>s.splitlines(keepends=False)\<close>: a line ends at a line boundary, \<open>\r\n\<close> counts as
  one boundary, and no empty line follows the last boundary.
\<close>

fun cons_line :: "nat \<Rightarrow> pystr list \<Rightarrow> pystr list" where
  "cons_line c [] = [[c]]"
| "cons_line c (l # ls) = (c # l) # ls"

fun splitlines :: "pystr \<Rightarrow> pystr list" where
  "splitlines [] = []"
| "splitlines [c] = (if linebreak c then [[]] else [[c]])"
| "splitlines (c # d # s) =
     (if c = CR \<and> d = LF then [] # splitlines s
      else if linebreak c then [] # splitlines (d # s)
      else cons_line c (splitlines (d # s)))"

text \<open>\<open>sep.join(lines)\<close>.\<close>

fun join :: "pystr \<Rightarrow> pystr list \<Rightarrow> pystr" where
  "join sep [] = []"
| "join sep [l] = l"
| "join sep (l # m # ls) = l @ sep @ join sep (m # ls)"

text \<open>
  What \<open>read_text\<close> does to the decoded file: in text mode with the default
  \<open>newline=None\<close> every \<open>\r\n\<close> and every lone \<open>\r\<close> is read as \<open>\n\<close>.
\<close>

fun universal_newlines :: "pystr \<Rightarrow> pystr" where
  "universal_newlines [] = []"
| "universal_newlines [c] = (if c = CR then [LF] else [c])"
| "universal_newlines (c # d # s) =
     (if c = CR \<and> d = LF then LF # universal_newlines s
      else if c = CR then LF # universal_newlines (d # s)
      else c # universal_newlines (d # s))"

section \<open>The regular expressions\<close>

text \<open>
  \<open>database_id\s*=\s*"([^"]+)"\<close> matched at the start of a text; the result is group 1
  and the text after the match. Every repetition is followed by a character outside its class, so the greedy choice
  is the only one that can match.
\<close>

definition after_prefix :: "pystr \<Rightarrow> pystr \<Rightarrow> pystr option" where
  "after_prefix p s = (if prefix p s then Some (drop (length p) s) else None)"

definition match_pattern :: "pystr \<Rightarrow> (pystr \<times> pystr) option" where
  "match_pattern s =
     (case after_prefix (str ''database_id'') s of
        None \<Rightarrow> None
      | Some r0 \<Rightarrow>
          (case dropWhile isspace r0 of
             [] \<Rightarrow> None
           | e # r1 \<Rightarrow>
               if e \<noteq> EQUALS then None
               else
                 (case dropWhile isspace r1 of
                    [] \<Rightarrow> None
                  | q # r2 \<Rightarrow>
                      if q \<noteq> QUOTE then None
                      else
                        (case dropWhile (\<lambda>c. c \<noteq> QUOTE) r2 of
                           [] \<Rightarrow> None
                         | q' # r3 \<Rightarrow>
                             (let g = takeWhile (\<lambda>c. c \<noteq> QUOTE) r2
                              in if g = [] then None else Some (g, r3))))))"

definition match_here :: "pystr \<Rightarrow> pystr option" where
  "match_here s = map_option fst (match_pattern s)"

text \<open>\<open>pattern.search(s)\<close>: the match at the leftmost position that has one.\<close>

fun re_search :: "pystr \<Rightarrow> pystr option" where
  "re_search [] = None"
| "re_search (c # s) =
     (case match_here (c # s) of Some g \<Rightarrow> Some g | None \<Rightarrow> re_search s)"

text \<open>
  \<open>^\s*database_id\s*=\s*"[^"]+"\s*$\<close> with \<open>re.MULTILINE\<close>, tried at a position where
  \<open>^\<close> holds. The last \<open>\s*\<close> may give characters back, so \<open>$\<close> holds when the
  white space after the closing quote runs to the end of the text or holds a \<open>\n\<close>.
\<close>

definition line_match_here :: "pystr \<Rightarrow> bool" where
  "line_match_here s =
     (case match_pattern (dropWhile isspace s) of
        None \<Rightarrow> False
      | Some (g, r) \<Rightarrow> dropWhile isspace r = [] \<or> LF \<in> set (takeWhile isspace r))"

text \<open>The search: \<open>^\<close> holds at the start of the text and after every \<open>\n\<close>.\<close>

fun line_search :: "bool \<Rightarrow> pystr \<Rightarrow> bool" where
  "line_search bol [] = False"
| "line_search bol (c # s) = ((bol \<and> line_match_here (c # s)) \<or> line_search (c = LF) s)"

text \<open>
  \<open>^[0-9a-fA-F]{8}-[0-9a-fA-F]{4}-[0-9a-fA-F]{4}-[0-9a-fA-F]{4}-[0-9a-fA-F]{12}$\<close> with
  \<open>match\<close>: \<open>hexes n\<close> reads exactly \<open>n\<close> hexadecimal digits, \<open>hyphen\<close> one hyphen, and
  \<open>$\<close> without \<open>re.MULTILINE\<close> holds at the end of the text and before a \<open>\n\<close> that
  ends the text.
\<close>

fun hexes :: "nat \<Rightarrow> pystr \<Rightarrow> pystr option" where
  "hexes 0 s = Some s"
| "hexes (Suc n) [] = None"
| "hexes (Suc n) (c # s) = (if hexdigit c then hexes n s else None)"

fun hyphen :: "pystr \<Rightarrow> pystr option" where
  "hyphen [] = None"
| "hyphen (c # s) = (if c = HYPHEN then Some s else None)"

definition at_dollar :: "pystr \<Rightarrow> bool" where
  "at_dollar s \<longleftrightarrow> s = [] \<or> s = [LF]"

definition uuid_groups :: "pystr \<Rightarrow> pystr option" where
  "uuid_groups s =
     Option.bind (Option.bind (Option.bind (Option.bind (Option.bind (Option.bind
       (Option.bind (Option.bind (hexes 8 s) hyphen) (hexes 4)) hyphen) (hexes 4)) hyphen)
       (hexes 4)) hyphen) (hexes 12)"

definition validate_database_id :: "pystr \<Rightarrow> bool" where
  "validate_database_id db_id =
     (case uuid_groups db_id of None \<Rightarrow> False | Some r \<Rightarrow> at_dollar r)"

section \<open>The script\<close>

text \<open>The placeholder token of the template and the key of the carrier line.\<close>

definition placeholder :: pystr where
  "placeholder = str ''${D1_DATABASE_ID}''"

definition key_prefix :: pystr where
  "key_prefix = str ''database_id = ''"

definition empty_assignment :: pystr where
  "empty_assignment = str ''database_id = \"\"''"

text \<open>
  The three files and the environment variable the script touches. A file is absent,
  present but not readable as UTF-8 text, or present with its decoded content.
  \<open>read_text\<close> raises on the first two.
\<close>

datatype path_state = Absent | Unreadable | Content pystr

fun read_text :: "path_state \<Rightarrow> pystr option" where
  "read_text Absent = None"
| "read_text Unreadable = None"
| "read_text (Content s) = Some (universal_newlines s)"

record world =
  D1_DATABASE_ID :: "pystr option"
  wrangler_toml_local :: path_state
  wrangler_example_toml :: path_state
  wrangler_toml :: path_state
  wrangler_toml_writable :: bool

datatype source = Environment_variable | Wrangler_toml_local

text \<open>
  What the script prints, one constructor for each \<open>print\<close> site (the three lines of
  ``not found'' are one message). The wording is left out, the values printed are kept.
\<close>

datatype message =
    Warn_local_unreadable
  | Err_not_found
  | Err_empty
  | Warn_format pystr
  | Info_database_id pystr pystr source
  | Err_example_missing
  | Info_creating
  | Err_read_example
  | Err_placeholder_missing
  | Err_substitution_failed
  | Err_empty_after_substitution
  | Err_value_empty
  | Err_line_not_found
  | Err_write_failed
  | Err_format_verification "(nat \<times> pystr) list"
  | Err_placeholder_in_final
  | Info_success

text \<open>
  The result of a run: the exit status, the messages in the order printed, the texts
  handed to \<open>write_text\<close> (whether or not the write went through), and the files afterwards.
\<close>

record outcome =
  exit_status :: nat
  messages :: "message list"
  write_text_calls :: "pystr list"
  world_after :: world

subsection \<open>\<open>get_database_id_from_local\<close>\<close>

text \<open>Lines 22 to 24, on the text read from the file.\<close>

definition local_database_id :: "pystr \<Rightarrow> pystr option" where
  "local_database_id content =
     (case re_search content of None \<Rightarrow> None | Some g \<Rightarrow> Some (strip g))"

fun get_database_id_from_local :: "path_state \<Rightarrow> message list \<times> pystr option" where
  "get_database_id_from_local Absent = ([], None)"
| "get_database_id_from_local Unreadable = ([Warn_local_unreadable], None)"
| "get_database_id_from_local (Content s) = ([], local_database_id (universal_newlines s))"

subsection \<open>\<open>main\<close>, lines 47 to 72: the value and where it comes from\<close>

text \<open>\<open>not db_id\<close> for an optional string: \<open>None\<close> and the empty string are false.\<close>

fun falsy :: "pystr option \<Rightarrow> bool" where
  "falsy None = True"
| "falsy (Some v) = (v = [])"

definition lookup :: "world \<Rightarrow> message list \<times> pystr option \<times> source" where
  "lookup w =
     (if falsy (D1_DATABASE_ID w)
      then (case get_database_id_from_local (wrangler_toml_local w) of
              (ms, v) \<Rightarrow> (ms, v, Wrangler_toml_local))
      else ([], D1_DATABASE_ID w, Environment_variable))"

definition resolve :: "world \<Rightarrow> message list \<times> (message + pystr \<times> source)" where
  "resolve w =
     (case lookup w of
        (ms, None, src) \<Rightarrow> (ms, Inl Err_not_found)
      | (ms, Some v, src) \<Rightarrow>
          if v = [] then (ms, Inl Err_not_found)
          else if strip v = [] then (ms, Inl Err_empty)
          else (ms, Inr (strip v, src)))"

subsection \<open>Lines 100 to 125: substitution\<close>

definition substitute :: "pystr \<Rightarrow> pystr \<Rightarrow> message + pystr" where
  "substitute db_id content =
     (if \<not> contains placeholder content then Inl Err_placeholder_missing
      else
        (let substituted_content = replace placeholder db_id content
         in if contains placeholder substituted_content then Inl Err_substitution_failed
            else if contains empty_assignment substituted_content
            then Inl Err_empty_after_substitution
            else Inr substituted_content))"

subsection \<open>Lines 127 to 152: the carrier line\<close>

text \<open>The line written at line 146.\<close>

definition clean_line :: "pystr \<Rightarrow> pystr \<Rightarrow> pystr" where
  "clean_line line db_value = takeWhile isspace line @ key_prefix @ [QUOTE] @ db_value @ [QUOTE]"

text \<open>
  The loop over the lines: the first line that passes both tests is rewritten in place
  and the loop ends; a line that fails either test is kept and the loop goes on.
\<close>

fun normalize_lines :: "pystr list \<Rightarrow> message + pystr list" where
  "normalize_lines [] = Inl Err_line_not_found"
| "normalize_lines (line # lines) =
     (if prefix key_prefix (strip line) then
        (case re_search line of
           Some g \<Rightarrow>
             if strip g = [] then Inl Err_value_empty
             else Inr (clean_line line (strip g) # lines)
         | None \<Rightarrow> map_sum id (Cons line) (normalize_lines lines))
      else map_sum id (Cons line) (normalize_lines lines))"

subsection \<open>Lines 154 to 157: the output text\<close>

definition join_output :: "pystr list \<Rightarrow> pystr" where
  "join_output lines =
     (let output = join [LF] lines
      in if output \<noteq> [] \<and> \<not> suffix [LF] output then output @ [LF] else output)"

text \<open>Lines 100 to 157 together: from the value and the template text to the output text.\<close>

definition generate :: "pystr \<Rightarrow> pystr \<Rightarrow> message + pystr" where
  "generate db_id content =
     (case substitute db_id content of
        Inl e \<Rightarrow> Inl e
      | Inr substituted_content \<Rightarrow>
          (case normalize_lines (splitlines substituted_content) of
             Inl e \<Rightarrow> Inl e
           | Inr lines \<Rightarrow> Inr (join_output lines)))"

subsection \<open>Lines 159 to 202: writing and the final verification\<close>

text \<open>The lines shown when the format verification fails, numbered from 1.\<close>

definition offending_lines :: "pystr \<Rightarrow> (nat \<times> pystr) list" where
  "offending_lines final_content =
     filter (\<lambda>(n, line). contains (str ''database_id'') line)
       (zip [1 ..< Suc (length (splitlines final_content))] (splitlines final_content))"

definition verify :: "pystr \<Rightarrow> message list" where
  "verify final_content =
     (if \<not> line_search True final_content
      then [Err_format_verification (offending_lines final_content)]
      else if contains placeholder final_content then [Err_placeholder_in_final]
      else [])"

text \<open>
  UTF-8 has an encoding for every code point of a Python \<open>str\<close> but the surrogates
  (a value of the environment holds them where its bytes are not UTF-8).
\<close>

definition encodable :: "pystr \<Rightarrow> bool" where
  "encodable s = list_all (\<lambda>c. c < 55296 \<or> 57343 < c) s"

text \<open>
  \<open>write_text\<close> opens the file for writing and then encodes the text. When the file
  cannot be opened it raises and the file is as it was. Once opened the file is empty;
  the encoding raises on a text that is not encodable and the file stays empty, and
  otherwise the text is stored (on a system whose line separator is \<open>\n\<close>, unchanged);
  the file then exists and is read back.
\<close>

definition write_and_verify :: "world \<Rightarrow> message list \<Rightarrow> pystr \<Rightarrow> outcome" where
  "write_and_verify w ms output =
     (if \<not> wrangler_toml_writable w
      then \<lparr>exit_status = 1, messages = ms @ [Err_write_failed],
            write_text_calls = [output], world_after = w\<rparr>
      else if \<not> encodable output
      then \<lparr>exit_status = 1, messages = ms @ [Err_write_failed],
            write_text_calls = [output], world_after = w\<lparr>wrangler_toml := Content []\<rparr>\<rparr>
      else
        (let w' = w\<lparr>wrangler_toml := Content output\<rparr>;
             problems = verify (universal_newlines output)
         in \<lparr>exit_status = (if problems = [] then 0 else 1),
              messages = ms @ (if problems = [] then [Info_success] else problems),
              write_text_calls = [output], world_after = w'\<rparr>))"

subsection \<open>\<open>main\<close>\<close>

text \<open>\<open>sys.exit(1)\<close> before line 161.\<close>

definition exit_early :: "world \<Rightarrow> message list \<Rightarrow> outcome" where
  "exit_early w ms =
     \<lparr>exit_status = 1, messages = ms, write_text_calls = [], world_after = w\<rparr>"

text \<open>Lines 74 to 82: the warning about the format and the preview of the value.\<close>

definition announce :: "pystr \<Rightarrow> source \<Rightarrow> message list" where
  "announce db_id src =
     (if validate_database_id db_id then [] else [Warn_format (take 8 db_id)]) @
     [Info_database_id (take 8 db_id) (drop (length db_id - 8) db_id) src]"

definition main :: "world \<Rightarrow> outcome" where
  "main w =
     (case resolve w of
        (ms, Inl e) \<Rightarrow> exit_early w (ms @ [e])
      | (ms, Inr (db_id, src)) \<Rightarrow>
          (case wrangler_example_toml w of
             Absent \<Rightarrow> exit_early w (ms @ announce db_id src @ [Err_example_missing])
           | Unreadable \<Rightarrow>
               exit_early w (ms @ announce db_id src @ [Info_creating, Err_read_example])
           | Content s \<Rightarrow>
               (case generate db_id (universal_newlines s) of
                  Inl e \<Rightarrow> exit_early w (ms @ announce db_id src @ [Info_creating, e])
                | Inr output \<Rightarrow>
                    write_and_verify w (ms @ announce db_id src @ [Info_creating]) output)))"

section \<open>Example inputs\<close>


definition no_value_world :: world where
  "no_value_world = \<lparr>D1_DATABASE_ID = None, wrangler_toml_local = Absent,
     wrangler_example_toml = Content (str ''database_id = \"${D1_DATABASE_ID}\"''),
     wrangler_toml = Content (str ''old''), wrangler_toml_writable = True\<rparr>"

definition no_placeholder_world :: world where
  "no_placeholder_world = \<lparr>D1_DATABASE_ID = Some (str ''12345678-1234-1234-1234-123456789012''),
     wrangler_toml_local = Absent,
     wrangler_example_toml = Content (str ''database_id = \"fixed\"''),
     wrangler_toml = Absent, wrangler_toml_writable = True\<rparr>"

definition blank_env_world :: world where
  "blank_env_world = \<lparr>D1_DATABASE_ID = Some (str ''  ''),
     wrangler_toml_local = Content (str ''database_id = \"abc\"''),
     wrangler_example_toml = Content (str ''database_id = \"${D1_DATABASE_ID}\"''),
     wrangler_toml = Absent, wrangler_toml_writable = True\<rparr>"

definition both_world :: world where
  "both_world = \<lparr>D1_DATABASE_ID = Some (str '' env ''),
     wrangler_toml_local = Content (str ''database_id = \"abc\"''),
     wrangler_example_toml = Content (str ''database_id = \"${D1_DATABASE_ID}\"''),
     wrangler_toml = Absent, wrangler_toml_writable = True\<rparr>"

definition local_only_world :: world where
  "local_only_world = \<lparr>D1_DATABASE_ID = None,
     wrangler_toml_local = Content (str ''database_id = \"abc\"''),
     wrangler_example_toml = Content (str ''database_id = \"${D1_DATABASE_ID}\"''),
     wrangler_toml = Absent, wrangler_toml_writable = True\<rparr>"

definition stale_output_world :: world where
  "stale_output_world = both_world\<lparr>wrangler_toml := Content (str ''stale'')\<rparr>"

text \<open>
  The pattern \<open>database_id\s*=\s*"([^"]+)"\<close> read as a set of texts: \<open>pattern_match s g r\<close>
  says that \<open>s\<close> starts with a match whose group 1 is \<open>g\<close> and that \<open>r\<close> follows the match;
  \<open>occurs_at content n g\<close> says that a match with group \<open>g\<close> starts at position \<open>n\<close>.
\<close>

definition pattern_match :: "pystr \<Rightarrow> pystr \<Rightarrow> pystr \<Rightarrow> bool" where
  "pattern_match s g r \<longleftrightarrow>
     (\<exists>ws1 ws2. s = str ''database_id'' @ ws1 @ [EQUALS] @ ws2 @ [QUOTE] @ g @ [QUOTE] @ r \<and>
        list_all isspace ws1 \<and> list_all isspace ws2 \<and> g \<noteq> [] \<and> QUOTE \<notin> set g)"

definition occurs_at :: "pystr \<Rightarrow> nat \<Rightarrow> pystr \<Rightarrow> bool" where
  "occurs_at content n g \<longleftrightarrow> (\<exists>r. pattern_match (drop n content) g r)"

definition padded_local :: pystr where
  "padded_local = str ''database_id = \" x \"''"

definition commented_local :: pystr where
  "commented_local = str ''#database_id=\" abc \" # old''"

text \<open>
  Lines for the normalizer: a carrier line with a blank value before a good one, and a
  carrier line with indentation and trailing content between two other lines.
\<close>

definition blank_first_lines :: "pystr list" where
  "blank_first_lines = [str ''database_id = \" \"'', str ''database_id = \"abc\"'']"

definition indented_lines :: "pystr list" where
  "indented_lines = [str ''[[d1_databases]]'', str ''  database_id = \"v\" # id'', str ''x = 1'']"




text \<open>
  Further runs: a template with \<open>\r\n\<close> line ends, a template that ends in blank lines, a
  template whose only placeholder is not on a carrier line, and a value that is not of the
  shape 8-4-4-4-12.
\<close>

definition crlf_world :: world where
  "crlf_world = \<lparr>D1_DATABASE_ID = Some (str ''env''), wrangler_toml_local = Absent,
     wrangler_example_toml = Content (str ''[[d1_databases]]'' @ [CR, LF] @ str ''database_id = \"${D1_DATABASE_ID}\"'' @ [CR, LF]),
     wrangler_toml = Absent, wrangler_toml_writable = True\<rparr>"

definition trailing_blank_world :: world where
  "trailing_blank_world = \<lparr>D1_DATABASE_ID = Some (str ''env''), wrangler_toml_local = Absent,
     wrangler_example_toml = Content (str ''database_id = \"${D1_DATABASE_ID}\"'' @ [LF, LF, LF]),
     wrangler_toml = Absent, wrangler_toml_writable = True\<rparr>"



section \<open>Properties\<close>

lemmas char_defs = LF_def CR_def QUOTE_def EQUALS_def HYPHEN_def


text \<open>
  C6. When the environment variable is unset or empty and the local file yields nothing
  (or an empty value), the run ends with status 1, \<open>write_text\<close> is never called and
  the files are as they were.
\<close>

theorem no_value_exits_1:
  assumes "falsy (D1_DATABASE_ID w)"
    and "falsy (snd (get_database_id_from_local (wrangler_toml_local w)))"
  shows "exit_status (main w) = 1 \<and> write_text_calls (main w) = [] \<and> world_after (main w) = w"
proof -
  obtain ms v where l: "get_database_id_from_local (wrangler_toml_local w) = (ms, v)"
    by (cases "get_database_id_from_local (wrangler_toml_local w)")
  with assms(2) have "v = None \<or> v = Some []" by (cases v) auto
  with assms(1) l have "resolve w = (ms, Inl Err_not_found)"
    by (auto simp add: resolve_def lookup_def)
  then show ?thesis by (simp add: main_def exit_early_def)
qed

theorem no_value_exits_1_witness:
  "exit_status (main no_value_world) = 1 \<and> write_text_calls (main no_value_world) = [] \<and>
   world_after (main no_value_world) = no_value_world"
  using no_value_exits_1 [of no_value_world] by (simp add: no_value_world_def)

lemmas eval_defs = str_def isspace_def strip_def placeholder_def key_prefix_def
  empty_assignment_def match_pattern_def match_here_def after_prefix_def local_database_id_def
  LF_def CR_def QUOTE_def EQUALS_def HYPHEN_def

text \<open>
  C7. When the text read from the template does not contain the placeholder, the run ends
  with status 1, \<open>write_text\<close> is never called and the files are as they were.
\<close>

theorem missing_placeholder_exits_1:
  assumes "read_text (wrangler_example_toml w) = Some content"
    and "\<not> contains placeholder content"
  shows "exit_status (main w) = 1 \<and> write_text_calls (main w) = [] \<and> world_after (main w) = w"
proof -
  obtain s where s: "wrangler_example_toml w = Content s" "content = universal_newlines s"
    using assms(1) by (cases "wrangler_example_toml w") auto
  have g: "generate db_id content = Inl Err_placeholder_missing" for db_id
    using assms(2) by (simp add: generate_def substitute_def)
  obtain ms r where r: "resolve w = (ms, r)" by (cases "resolve w")
  show ?thesis
  proof (cases r)
    case (Inl e)
    with r show ?thesis by (simp add: main_def exit_early_def)
  next
    case (Inr p)
    obtain db_id src where "p = (db_id, src)" by (cases p)
    with Inr r s g show ?thesis by (simp add: main_def exit_early_def)
  qed
qed

theorem missing_placeholder_exits_1_witness:
  "exit_status (main no_placeholder_world) = 1 \<and> write_text_calls (main no_placeholder_world) = []
   \<and> world_after (main no_placeholder_world) = no_placeholder_world"
  using missing_placeholder_exits_1 [of no_placeholder_world
      "str ''database_id = \"fixed\"''"]
  by (simp add: no_placeholder_world_def eval_defs)

text \<open>
  C2, as stated, fails: an environment variable that is set to white space only is not
  empty, so the local file is not consulted, and the value is empty after trimming, so the
  run ends with status 1 although the local file holds a value.
\<close>

theorem blank_environment_value_no_fallback:
  "D1_DATABASE_ID blank_env_world = Some (str ''  '') \<and> strip (str ''  '') = [] \<and>
   snd (get_database_id_from_local (wrangler_toml_local blank_env_world)) = Some (str ''abc'') \<and>
   snd (resolve blank_env_world) = Inl Err_empty \<and>
   exit_status (main blank_env_world) = 1"
  by (simp add: blank_env_world_def resolve_def lookup_def main_def exit_early_def eval_defs)

text \<open>
  C2, amended. A set, non-empty environment variable is always the source: its trimmed
  value is used when that is non-empty, and the run fails when it is blank. Only an unset
  or empty variable makes the value of the local file the one used, and the run fails when
  neither gives a value.
\<close>

theorem environment_precedence:
  "(D1_DATABASE_ID w = Some v \<and> v \<noteq> [] \<and> strip v \<noteq> [] \<longrightarrow>
      snd (resolve w) = Inr (strip v, Environment_variable)) \<and>
   (D1_DATABASE_ID w = Some v \<and> v \<noteq> [] \<and> strip v = [] \<longrightarrow>
      snd (resolve w) = Inl Err_empty) \<and>
   (falsy (D1_DATABASE_ID w) \<and>
    snd (get_database_id_from_local (wrangler_toml_local w)) = Some u \<and> strip u \<noteq> [] \<longrightarrow>
      snd (resolve w) = Inr (strip u, Wrangler_toml_local)) \<and>
   (falsy (D1_DATABASE_ID w) \<and>
    falsy (snd (get_database_id_from_local (wrangler_toml_local w))) \<longrightarrow>
      snd (resolve w) = Inl Err_not_found)"
proof -
  obtain ms x where l: "get_database_id_from_local (wrangler_toml_local w) = (ms, x)"
    by (cases "get_database_id_from_local (wrangler_toml_local w)")
  have "strip [] = []" by (simp add: strip_def)
  then show ?thesis using l
    by (cases x) (auto simp add: resolve_def lookup_def)
qed

theorem environment_precedence_witness:
  "snd (resolve both_world) = Inr (str ''env'', Environment_variable) \<and>
   snd (resolve blank_env_world) = Inl Err_empty \<and>
   snd (resolve local_only_world) = Inr (str ''abc'', Wrangler_toml_local) \<and>
   snd (resolve no_value_world) = Inl Err_not_found"
  using environment_precedence [of both_world "str '' env ''" "str ''abc''"]
    environment_precedence [of blank_env_world "str ''  ''" "str ''abc''"]
    environment_precedence [of local_only_world "[]" "str ''abc''"]
    environment_precedence [of no_value_world "[]" "[]"]
  by (simp add: both_world_def blank_env_world_def local_only_world_def no_value_world_def eval_defs)

lemma resolve_cong:
  assumes "D1_DATABASE_ID w1 = D1_DATABASE_ID w2"
    and "wrangler_toml_local w1 = wrangler_toml_local w2"
  shows "resolve w1 = resolve w2"
  using assms by (simp add: resolve_def lookup_def)

text \<open>
  C3. Two runs that agree on the environment variable, the local file and the template
  hand the same text to \<open>write_text\<close>, whatever the output file held before; when the
  output file is writable in both, they end with the same status and messages and leave
  the same output file.
\<close>

theorem run_deterministic:
  assumes "D1_DATABASE_ID w1 = D1_DATABASE_ID w2"
    and "wrangler_toml_local w1 = wrangler_toml_local w2"
    and "wrangler_example_toml w1 = wrangler_example_toml w2"
  shows "write_text_calls (main w1) = write_text_calls (main w2) \<and>
    (wrangler_toml_writable w1 = wrangler_toml_writable w2 \<longrightarrow>
       exit_status (main w1) = exit_status (main w2) \<and> messages (main w1) = messages (main w2)) \<and>
    (wrangler_toml_writable w1 \<and> wrangler_toml_writable w2 \<and> write_text_calls (main w1) \<noteq> [] \<longrightarrow>
       wrangler_toml (world_after (main w1)) = wrangler_toml (world_after (main w2)))"
proof -
  have r: "resolve w1 = resolve w2" using assms(1,2) by (rule resolve_cong)
  obtain ms x where x: "resolve w2 = (ms, x)" by (cases "resolve w2")
  show ?thesis
  proof (cases x)
    case (Inl e)
    with r x show ?thesis by (simp add: main_def exit_early_def)
  next
    case (Inr p)
    obtain db_id src where p: "p = (db_id, src)" by (cases p)
    show ?thesis
    proof (cases "wrangler_example_toml w2")
      case Absent
      with Inr p r x assms(3) show ?thesis by (simp add: main_def exit_early_def)
    next
      case Unreadable
      with Inr p r x assms(3) show ?thesis by (simp add: main_def exit_early_def)
    next
      case (Content s)
      show ?thesis
      proof (cases "generate db_id (universal_newlines s)")
        case (Inl e)
        with Content Inr p r x assms(3) show ?thesis by (simp add: main_def exit_early_def)
      next
        case g: (Inr out)
        with Content Inr p r x assms(3) show ?thesis
          by (simp add: main_def write_and_verify_def Let_def)
      qed
    qed
  qed
qed

lemma universal_newlines_id: "CR \<notin> set s \<Longrightarrow> universal_newlines s = s"
  by (induction s rule: universal_newlines.induct) auto

lemma example_generate:
  "generate (str ''env'') (str ''database_id = \"${D1_DATABASE_ID}\"'') =
     Inr (str ''database_id = \"env\"'' @ [LF])"
proof -
  have s1: "substitute (str ''env'') (str ''database_id = \"${D1_DATABASE_ID}\"'') =
      Inr (str ''database_id = \"env\"'')"
    by (simp add: substitute_def replace_def eval_defs)
  have s2: "splitlines (str ''database_id = \"env\"'') = [str ''database_id = \"env\"'']"
    by (simp add: str_def linebreak_def char_defs)
  have s3: "normalize_lines [str ''database_id = \"env\"''] = Inr [str ''database_id = \"env\"'']"
    by (simp add: clean_line_def eval_defs)
  have s4: "join_output [str ''database_id = \"env\"''] = str ''database_id = \"env\"'' @ [LF]"
    by (simp add: join_output_def suffix_to_prefix str_def char_defs)
  show ?thesis by (simp only: generate_def s1 s2 s3 s4 sum.case)
qed

lemma both_world_writes:
  "write_text_calls (main both_world) = [str ''database_id = \"env\"'' @ [LF]]"
proof -
  have r: "resolve both_world = ([], Inr (str ''env'', Environment_variable))"
    by (simp add: both_world_def resolve_def lookup_def eval_defs)
  have e: "wrangler_example_toml both_world = Content (str ''database_id = \"${D1_DATABASE_ID}\"'')"
    by (simp add: both_world_def)
  have u: "universal_newlines (str ''database_id = \"${D1_DATABASE_ID}\"'') =
      str ''database_id = \"${D1_DATABASE_ID}\"''"
    by (rule universal_newlines_id) (simp add: str_def CR_def)
  show ?thesis
    by (simp add: main_def r e u example_generate write_and_verify_def Let_def del: append.simps)
qed

theorem run_deterministic_witness:
  "write_text_calls (main both_world) = write_text_calls (main stale_output_world) \<and>
   exit_status (main both_world) = exit_status (main stale_output_world) \<and>
   messages (main both_world) = messages (main stale_output_world) \<and>
   wrangler_toml (world_after (main both_world)) =
     wrangler_toml (world_after (main stale_output_world)) \<and>
   wrangler_toml both_world \<noteq> wrangler_toml stale_output_world"
  using run_deterministic [of both_world stale_output_world] both_world_writes
  by (simp add: stale_output_world_def both_world_def)

lemma not_isspace_EQUALS [simp]: "\<not> isspace EQUALS"
  by (simp add: isspace_def EQUALS_def)

lemma not_isspace_QUOTE [simp]: "\<not> isspace QUOTE"
  by (simp add: isspace_def QUOTE_def)

lemma dropWhile_run: "list_all P ws \<Longrightarrow> \<not> P x \<Longrightarrow> dropWhile P (ws @ x # r) = x # r"
  by (induction ws) auto

lemma takeWhile_run: "list_all P ws \<Longrightarrow> \<not> P x \<Longrightarrow> takeWhile P (ws @ x # r) = ws"
  by (induction ws) auto

lemma dropWhile_Cons_split:
  assumes "dropWhile P xs = y # ys"
  shows "xs = takeWhile P xs @ y # ys \<and> list_all P (takeWhile P xs) \<and> \<not> P y"
proof -
  have "xs = takeWhile P xs @ dropWhile P xs" by simp
  moreover have "\<not> P y" using assms hd_dropWhile [of P xs] by auto
  moreover have "list_all P (takeWhile P xs)"
    by (simp add: list_all_iff) (meson set_takeWhileD)
  ultimately show ?thesis using assms by simp
qed

lemma match_pattern_sound:
  assumes "match_pattern s = Some (g, r)"
  shows "pattern_match s g r"
proof -
  from assms obtain r0 where r0: "s = str ''database_id'' @ r0"
    by (auto simp add: match_pattern_def after_prefix_def prefix_def split: if_splits)
  then have a: "after_prefix (str ''database_id'') s = Some r0"
    by (simp add: after_prefix_def)
  from assms a obtain r1 where r1: "dropWhile isspace r0 = EQUALS # r1"
    by (auto simp add: match_pattern_def split: list.splits if_splits)
  from assms a r1 obtain r2 where r2: "dropWhile isspace r1 = QUOTE # r2"
    by (auto simp add: match_pattern_def split: list.splits if_splits)
  from assms a r1 r2 obtain q where q: "dropWhile (\<lambda>c. c \<noteq> QUOTE) r2 = q # r"
    and g: "g = takeWhile (\<lambda>c. c \<noteq> QUOTE) r2" "g \<noteq> []"
    by (auto simp add: match_pattern_def Let_def split: list.splits if_splits)
  from dropWhile_Cons_split [OF q] have "q = QUOTE" and r2': "r2 = g @ QUOTE # r" and
    "list_all (\<lambda>c. c \<noteq> QUOTE) g"
    using g by auto
  then have nq: "QUOTE \<notin> set g" by (auto simp add: list_all_iff)
  from dropWhile_Cons_split [OF r1] dropWhile_Cons_split [OF r2]
  have "r0 = takeWhile isspace r0 @ EQUALS # r1" "list_all isspace (takeWhile isspace r0)"
    "r1 = takeWhile isspace r1 @ QUOTE # r2" "list_all isspace (takeWhile isspace r1)"
    by auto
  with r0 r2' g nq show ?thesis
    unfolding pattern_match_def
    by (intro exI [of _ "takeWhile isspace r0"] exI [of _ "takeWhile isspace r1"]) auto
qed

lemma match_pattern_complete:
  assumes "pattern_match s g r"
  shows "match_pattern s = Some (g, r)"
proof -
  from assms obtain ws1 ws2 where
    s: "s = str ''database_id'' @ ws1 @ [EQUALS] @ ws2 @ [QUOTE] @ g @ [QUOTE] @ r"
    and w: "list_all isspace ws1" "list_all isspace ws2" and g: "g \<noteq> []" "QUOTE \<notin> set g"
    by (auto simp add: pattern_match_def)
  have a: "after_prefix (str ''database_id'') s = Some (ws1 @ EQUALS # ws2 @ QUOTE # g @ QUOTE # r)"
    by (simp add: after_prefix_def s)
  have gq: "list_all (\<lambda>c. c \<noteq> QUOTE) g" using g by (auto simp add: list_all_iff)
  have d: "dropWhile (\<lambda>c. c \<noteq> QUOTE) (g @ QUOTE # r) = QUOTE # r"
    "takeWhile (\<lambda>c. c \<noteq> QUOTE) (g @ QUOTE # r) = g"
    using gq by (simp_all add: dropWhile_run takeWhile_run)
  show ?thesis
    using w g by (simp add: match_pattern_def a dropWhile_run d)
qed

lemma match_pattern_iff: "match_pattern s = Some (g, r) \<longleftrightarrow> pattern_match s g r"
  using match_pattern_sound match_pattern_complete by blast

lemma match_here_iff: "match_here s = Some g \<longleftrightarrow> (\<exists>r. pattern_match s g r)"
  by (auto simp add: match_here_def match_pattern_iff)

lemma match_here_Nil [simp]: "match_here [] = None"
  by (simp add: match_here_def match_pattern_def after_prefix_def str_def)

lemma re_search_None_iff: "re_search s = None \<longleftrightarrow> (\<forall>n. match_here (drop n s) = None)"
proof (induction s)
  case Nil
  show ?case by simp
next
  case (Cons c s)
  show ?case
  proof (cases "match_here (c # s)")
    case None
    have "(\<forall>n. match_here (drop n (c # s)) = None) \<longleftrightarrow> (\<forall>n. match_here (drop n s) = None)"
    proof
      assume h: "\<forall>n. match_here (drop n (c # s)) = None"
      show "\<forall>n. match_here (drop n s) = None"
      proof
        fix n from h have "match_here (drop (Suc n) (c # s)) = None" by blast
        then show "match_here (drop n s) = None" by simp
      qed
    next
      assume h: "\<forall>n. match_here (drop n s) = None"
      show "\<forall>n. match_here (drop n (c # s)) = None"
      proof
        fix n show "match_here (drop n (c # s)) = None"
          using None h by (cases n) simp_all
      qed
    qed
    with None Cons show ?thesis by simp
  next
    case (Some g)
    have "\<not> (\<forall>n. match_here (drop n (c # s)) = None)"
    proof
      assume "\<forall>n. match_here (drop n (c # s)) = None"
      then have "match_here (drop 0 (c # s)) = None" by (rule spec)
      with Some show False by simp
    qed
    with Some show ?thesis by simp
  qed
qed

lemma re_search_first:
  assumes "match_here (drop n s) = Some g" and "\<forall>m<n. match_here (drop m s) = None"
  shows "re_search s = Some g"
  using assms
proof (induction s arbitrary: n)
  case Nil
  then show ?case by simp
next
  case (Cons c s)
  show ?case
  proof (cases n)
    case 0
    with Cons.prems show ?thesis by simp
  next
    case (Suc k)
    with Cons.prems have "match_here (drop 0 (c # s)) = None" by blast
    then have h: "match_here (c # s) = None" by simp
    have "match_here (drop k s) = Some g" using Cons.prems Suc by simp
    moreover have "\<forall>m<k. match_here (drop m s) = None"
    proof (intro allI impI)
      fix m assume "m < k"
      then have "match_here (drop (Suc m) (c # s)) = None" using Cons.prems Suc by blast
      then show "match_here (drop m s) = None" by simp
    qed
    ultimately have "re_search s = Some g" by (rule Cons.IH)
    with h show ?thesis by simp
  qed
qed

text \<open>
  C9, amended. The lookup in the local file returns nothing exactly when the pattern occurs
  nowhere in the text, and otherwise the group of the leftmost occurrence with the
  surrounding white space trimmed; sections and comment marks play no part.
\<close>

theorem local_database_id_first_occurrence:
  "(local_database_id content = None \<longleftrightarrow> (\<forall>n g. \<not> occurs_at content n g)) \<and>
   (occurs_at content n g \<and> (\<forall>m<n. \<forall>g'. \<not> occurs_at content m g') \<longrightarrow>
      local_database_id content = Some (strip g))"
proof -
  have none: "match_here s = None \<longleftrightarrow> (\<forall>g r. \<not> pattern_match s g r)" for s
  proof
    assume n: "match_here s = None"
    show "\<forall>g r. \<not> pattern_match s g r"
    proof (intro allI notI)
      fix g r assume "pattern_match s g r"
      then have "match_here s = Some g" using match_here_iff by blast
      with n show False by simp
    qed
  next
    assume h: "\<forall>g r. \<not> pattern_match s g r"
    show "match_here s = None"
    proof (rule ccontr)
      assume "match_here s \<noteq> None"
      then obtain g where "match_here s = Some g" by auto
      then obtain r where "pattern_match s g r" using match_here_iff by blast
      with h show False by blast
    qed
  qed
  have "local_database_id content = None \<longleftrightarrow> re_search content = None"
    by (simp add: local_database_id_def split: option.splits)
  also have "\<dots> \<longleftrightarrow> (\<forall>n g r. \<not> pattern_match (drop n content) g r)"
    by (simp add: re_search_None_iff none)
  also have "\<dots> \<longleftrightarrow> (\<forall>n g. \<not> occurs_at content n g)"
    by (simp add: occurs_at_def)
  finally have a: "local_database_id content = None \<longleftrightarrow> (\<forall>n g. \<not> occurs_at content n g)" .
  have b: "local_database_id content = Some (strip g)"
    if "occurs_at content n g" and "\<forall>m<n. \<forall>g'. \<not> occurs_at content m g'"
  proof -
    from that(1) have "match_here (drop n content) = Some g"
      by (simp add: occurs_at_def match_here_iff)
    moreover from that(2) have "\<forall>m<n. match_here (drop m content) = None"
      by (simp add: occurs_at_def none)
    ultimately have "re_search content = Some g" by (rule re_search_first)
    then show ?thesis by (simp add: local_database_id_def)
  qed
  from a b show ?thesis by blast
qed

lemma drop_str: "drop n (str s) = str (drop n s)"
  by (simp add: str_def drop_map)

text \<open>
  C9, as stated, fails: the value returned is the captured group trimmed, not the group.
\<close>

theorem local_database_id_trims_group:
  "occurs_at padded_local 0 (str '' x '') \<and>
   local_database_id padded_local = Some (str ''x'') \<and> str ''x'' \<noteq> str '' x ''"
proof -
  have m: "match_here padded_local = Some (str '' x '')"
    by (simp add: padded_local_def eval_defs)
  then have "occurs_at padded_local 0 (str '' x '')"
    by (simp add: occurs_at_def match_here_iff [symmetric])
  moreover have "local_database_id padded_local = Some (str ''x'')"
    by (simp add: padded_local_def eval_defs)
  ultimately show ?thesis by (simp add: str_def)
qed

theorem local_database_id_first_occurrence_witness:
  "occurs_at commented_local 1 (str '' abc '') \<and>
   local_database_id commented_local = Some (str ''abc'')"
proof -
  have "match_here (drop 1 commented_local) = Some (str '' abc '')"
    by (simp add: commented_local_def eval_defs)
  then have o1: "occurs_at commented_local 1 (str '' abc '')"
    by (simp only: occurs_at_def match_here_iff)
  have n0: "match_here commented_local = None"
    by (simp add: commented_local_def eval_defs)
  have o0: "\<forall>m<1. \<forall>g'. \<not> occurs_at commented_local m g'"
  proof (intro allI impI notI)
    fix m :: nat and g' assume "m < 1" and "occurs_at commented_local m g'"
    then have "match_here commented_local = Some g'"
      by (simp add: occurs_at_def match_here_iff)
    with n0 show False by simp
  qed
  have st: "strip (str '' abc '') = str ''abc''"
    by (simp add: eval_defs)
  from local_database_id_first_occurrence [of commented_local 1 "str '' abc ''"] o1 o0 st
  show ?thesis by simp
qed

text \<open>
  C4, as stated, fails: when the first carrier line holds only white space between its
  quotes, the normalizer stops with an error although a later line starts with
  \<open>database_id = \<close> and holds a quoted non-empty value; no line is rewritten.
\<close>

theorem normalize_lines_blank_first_fails:
  "splitlines (str ''database_id = \" \"'' @ [LF] @ str ''database_id = \"abc\"'' @ [LF]) =
     blank_first_lines \<and>
   prefix key_prefix (strip (blank_first_lines ! 1)) \<and>
   re_search (blank_first_lines ! 1) = Some (str ''abc'') \<and> strip (str ''abc'') \<noteq> [] \<and>
   normalize_lines blank_first_lines = Inl Err_value_empty"
proof -
  have a: "splitlines (str ''database_id = \" \"'' @ [LF] @ str ''database_id = \"abc\"'' @ [LF]) =
     blank_first_lines"
    by (simp add: blank_first_lines_def str_def linebreak_def char_defs)
  have b: "prefix key_prefix (strip (blank_first_lines ! 1))"
    by (simp add: blank_first_lines_def eval_defs)
  have c: "re_search (blank_first_lines ! 1) = Some (str ''abc'')"
    by (simp add: blank_first_lines_def eval_defs)
  have d: "strip (str ''abc'') \<noteq> []"
    by (simp add: eval_defs)
  have e: "normalize_lines blank_first_lines = Inl Err_value_empty"
    by (simp add: blank_first_lines_def eval_defs)
  from a b c d e show ?thesis by (simp only: simp_thms)
qed

text \<open>
  C4, amended. The first line whose trimmed form starts with \<open>database_id = \<close> and in
  which the pattern matches decides: when its value, trimmed, is empty the normalizer
  fails; otherwise that line alone is replaced by its leading white space followed by
  \<open>database_id = "value"\<close>, and every other line is as it was.
\<close>

theorem normalize_lines_rewrites_first:
  assumes "i < length lines"
    and "prefix key_prefix (strip (lines ! i))"
    and "re_search (lines ! i) = Some g"
    and "\<forall>j<i. \<not> (prefix key_prefix (strip (lines ! j)) \<and> re_search (lines ! j) \<noteq> None)"
  shows "normalize_lines lines =
    (if strip g = [] then Inl Err_value_empty
     else Inr (lines[i := takeWhile isspace (lines ! i) @ str ''database_id = \"'' @ strip g @
                          str ''\"'']))"
  using assms
proof (induction lines arbitrary: i)
  case Nil
  then show ?case by simp
next
  case (Cons line lines)
  show ?case
  proof (cases i)
    case 0
    with Cons.prems show ?thesis
      by (simp add: clean_line_def key_prefix_def str_def QUOTE_def)
  next
    case (Suc k)
    from Cons.prems(4) Suc
    have first: "\<not> (prefix key_prefix (strip line) \<and> re_search line \<noteq> None)"
      by auto
    have rest: "\<forall>j<k. \<not> (prefix key_prefix (strip (lines ! j)) \<and> re_search (lines ! j) \<noteq> None)"
    proof (intro allI impI)
      fix j assume "j < k"
      then have "Suc j < i" using Suc by simp
      with Cons.prems(4) show "\<not> (prefix key_prefix (strip (lines ! j)) \<and> re_search (lines ! j) \<noteq> None)"
        by fastforce
    qed
    have ih: "normalize_lines lines =
      (if strip g = [] then Inl Err_value_empty
       else Inr (lines[k := takeWhile isspace (lines ! k) @ str ''database_id = \"'' @ strip g @
                          str ''\"'']))"
      using Cons.IH [of k] Cons.prems(1,2,3) Suc rest by simp
    have step: "normalize_lines (line # lines) = map_sum id (Cons line) (normalize_lines lines)"
      using first by (cases "re_search line") auto
    show ?thesis unfolding step ih using Suc by simp
  qed
qed

theorem normalize_lines_rewrites_first_witness:
  "normalize_lines indented_lines =
     Inr [str ''[[d1_databases]]'', str ''  database_id = \"v\"'', str ''x = 1'']"
proof -
  have a: "prefix key_prefix (strip (indented_lines ! 1))"
    by (simp add: indented_lines_def eval_defs)
  have b: "re_search (indented_lines ! 1) = Some (str ''v'')"
    by (simp add: indented_lines_def eval_defs)
  have c: "\<forall>j<1. \<not> (prefix key_prefix (strip (indented_lines ! j)) \<and>
      re_search (indented_lines ! j) \<noteq> None)"
    by (simp add: indented_lines_def eval_defs)
  have d: "strip (str ''v'') = str ''v''"
    by (simp add: eval_defs)
  have e: "takeWhile isspace (indented_lines ! 1) = str ''  ''"
    by (simp add: indented_lines_def str_def isspace_def)
  have l: "(1::nat) < length indented_lines" by (simp add: indented_lines_def)
  have n: "str ''v'' \<noteq> []" by (simp add: str_def)
  have r: "normalize_lines indented_lines =
      Inr (indented_lines[1 := str ''  '' @ str ''database_id = \"'' @ str ''v'' @ str ''\"''])"
    using normalize_lines_rewrites_first [OF l a b c] by (simp only: d e n if_False)
  have u: "indented_lines[1 := str ''  '' @ str ''database_id = \"'' @ str ''v'' @ str ''\"''] =
      [str ''[[d1_databases]]'', str ''  database_id = \"v\"'', str ''x = 1'']"
    by (simp add: indented_lines_def str_def)
  show ?thesis by (simp only: r u)
qed













lemma contains_iff_sublist: "contains p s \<longleftrightarrow> sublist p s"
  by (induction s) (simp_all add: sublist_Cons_right)

lemma splitlines_Nil_iff: "splitlines s = [] \<longleftrightarrow> s = []"
proof (induction s rule: splitlines.induct)
  case (3 c d s)
  then show ?case by (cases "splitlines (d # s)") auto
qed auto

lemma linebreak_LF [simp]: "linebreak LF"
  by (simp add: linebreak_def LF_def)

lemma linebreak_CR [simp]: "linebreak CR"
  by (simp add: linebreak_def CR_def)

lemma splitlines_hd_prefix: "splitlines s = l # ls \<Longrightarrow> prefix l s"
proof (induction s arbitrary: l ls rule: splitlines.induct)
  case 1
  then show ?case by simp
next
  case (2 c)
  then show ?case by (auto split: if_splits)
next
  case (3 c d s)
  show ?case
  proof (cases "(c = CR \<and> d = LF) \<or> linebreak c")
    case True
    with "3.prems" have "l = []" by (auto split: if_splits)
    then show ?thesis by simp
  next
    case False
    obtain l' ls' where s: "splitlines (d # s) = l' # ls'"
      using splitlines_Nil_iff [of "d # s"] by (cases "splitlines (d # s)") auto
    from False have "prefix l' (d # s)" using "3.IH"(3) s by auto
    moreover from False "3.prems" s have "l = c # l'" by auto
    ultimately show ?thesis by simp
  qed
qed

lemma splitlines_sublist: "l \<in> set (splitlines s) \<Longrightarrow> sublist l s"
proof (induction s arbitrary: l rule: splitlines.induct)
  case 1
  then show ?case by simp
next
  case (2 c)
  then show ?case by (auto split: if_splits)
next
  case (3 c d s)
  show ?case
  proof (cases "c = CR \<and> d = LF")
    case True
    with "3.prems" have "l = [] \<or> l \<in> set (splitlines s)" by auto
    then show ?thesis
    proof
      assume "l = []" then show ?thesis by simp
    next
      assume "l \<in> set (splitlines s)"
      with True "3.IH"(1) have "sublist l s" by simp
      then show ?thesis by (simp add: sublist_Cons_right)
    qed
  next
    case n: False
    show ?thesis
    proof (cases "linebreak c")
      case True
      with n "3.prems" have "l = [] \<or> l \<in> set (splitlines (d # s))" by auto
      then show ?thesis
      proof
        assume "l = []" then show ?thesis by simp
      next
        assume "l \<in> set (splitlines (d # s))"
        with n True "3.IH"(2) have "sublist l (d # s)" by simp
        then show ?thesis by (simp add: sublist_Cons_right [of l c])
      qed
    next
      case False
      obtain l' ls' where s: "splitlines (d # s) = l' # ls'"
        using splitlines_Nil_iff [of "d # s"] by (cases "splitlines (d # s)") auto
      from n False "3.prems" s have "l = c # l' \<or> l \<in> set ls'" by auto
      then show ?thesis
      proof
        assume l: "l = c # l'"
        have "prefix l' (d # s)" using s by (rule splitlines_hd_prefix)
        with l have "prefix l (c # d # s)" by simp
        then show ?thesis by (rule prefix_imp_sublist)
      next
        assume "l \<in> set ls'"
        with s have "l \<in> set (splitlines (d # s))" by simp
        with n False "3.IH"(3) have "sublist l (d # s)" by simp
        then show ?thesis by (simp add: sublist_Cons_right [of l c])
      qed
    qed
  qed
qed

lemma splitlines_no_linebreak:
  "l \<in> set (splitlines s) \<Longrightarrow> x \<in> set l \<Longrightarrow> \<not> linebreak x"
proof (induction s arbitrary: l rule: splitlines.induct)
  case 1
  then show ?case by simp
next
  case (2 c)
  then show ?case by (auto split: if_splits)
next
  case (3 c d s)
  show ?case
  proof (cases "c = CR \<and> d = LF")
    case True
    with "3.prems" have "l \<in> set (splitlines s)" by auto
    with True "3.IH"(1) "3.prems"(2) show ?thesis by simp
  next
    case n: False
    show ?thesis
    proof (cases "linebreak c")
      case True
      with n "3.prems" have "l \<in> set (splitlines (d # s))" by auto
      with n True "3.IH"(2) "3.prems"(2) show ?thesis by simp
    next
      case False
      obtain l' ls' where s: "splitlines (d # s) = l' # ls'"
        using splitlines_Nil_iff [of "d # s"] by (cases "splitlines (d # s)") auto
      from n False "3.prems"(1) s have "l = c # l' \<or> l \<in> set ls'" by auto
      then show ?thesis
      proof
        assume l: "l = c # l'"
        show ?thesis
        proof (cases "x = c")
          case True
          with False show ?thesis by simp
        next
          case x: False
          with l "3.prems"(2) have "x \<in> set l'" by simp
          moreover have "l' \<in> set (splitlines (d # s))" using s by simp
          ultimately show ?thesis using n False "3.IH"(3) by simp
        qed
      next
        assume "l \<in> set ls'"
        with s have "l \<in> set (splitlines (d # s))" by simp
        with n False "3.IH"(3) "3.prems"(2) show ?thesis by simp
      qed
    qed
  qed
qed



lemma sublist_trans: "sublist a b \<Longrightarrow> sublist b c \<Longrightarrow> sublist a (c :: 'a list)"
  by (rule sublist_order.order_trans)

lemma strip_sublist: "sublist (strip g) g"
proof -
  have "sublist (strip g) (dropWhile isspace g)"
    by (simp add: strip_def sublist_rev_left)
  then show ?thesis by (rule sublist_trans) simp
qed

lemma pattern_match_group:
  assumes "pattern_match s g r"
  shows "sublist g s \<and> g \<noteq> [] \<and> QUOTE \<notin> set g"
proof -
  from assms obtain ws1 ws2 where
    s: "s = str ''database_id'' @ ws1 @ [EQUALS] @ ws2 @ [QUOTE] @ g @ [QUOTE] @ r"
    and g: "g \<noteq> []" "QUOTE \<notin> set g"
    unfolding pattern_match_def by blast
  have "s = (str ''database_id'' @ ws1 @ [EQUALS] @ ws2 @ [QUOTE]) @ g @ ([QUOTE] @ r)"
    using s by simp
  then have "sublist g s" unfolding sublist_def by blast
  with g show ?thesis by simp
qed

lemma re_search_group:
  "re_search s = Some g \<Longrightarrow> sublist g s \<and> g \<noteq> [] \<and> QUOTE \<notin> set g"
proof (induction s)
  case Nil
  then show ?case by simp
next
  case (Cons c s)
  show ?case
  proof (cases "match_here (c # s)")
    case None
    with Cons.prems have "re_search s = Some g" by simp
    then have "sublist g s \<and> g \<noteq> [] \<and> QUOTE \<notin> set g" by (rule Cons.IH)
    then show ?thesis by (simp add: sublist_Cons_right)
  next
    case (Some g')
    with Cons.prems have "g' = g" by simp
    with Some obtain r where "pattern_match (c # s) g r" by (auto simp add: match_here_iff)
    then show ?thesis by (rule pattern_match_group)
  qed
qed

lemma sublist_split_sep:
  assumes "sublist p (a @ q # b)" and "q \<notin> set p"
  shows "sublist p a \<or> sublist p b"
proof -
  from assms(1) consider "sublist p a" | "sublist p (q # b)"
    | xs1 xs2 where "p = xs1 @ xs2" "suffix xs1 a" "prefix xs2 (q # b)"
    unfolding sublist_append by blast
  then show ?thesis
  proof cases
    case 1
    then show ?thesis ..
  next
    case 2
    then have "prefix p (q # b) \<or> sublist p b" by (simp add: sublist_Cons_right)
    then show ?thesis
    proof
      assume "prefix p (q # b)"
      with assms(2) have "p = []" by (cases p) auto
      then show ?thesis by simp
    next
      assume "sublist p b"
      then show ?thesis ..
    qed
  next
    case 3
    from 3(3) assms(2) 3(1) have "xs2 = []" by (cases xs2) auto
    with 3(1,2) have "suffix p a" by simp
    then show ?thesis by auto
  qed
qed

lemma sublist_snoc_sep:
  assumes "sublist p (a @ [q])" and "q \<notin> set p"
  shows "sublist p a"
proof -
  from assms have "sublist p a \<or> sublist p []" by (rule sublist_split_sep)
  then show ?thesis by auto
qed

lemma sublist_skip_left:
  assumes "sublist p (a @ b)" and "p \<noteq> []" and "hd p \<notin> set a"
  shows "sublist p b"
proof -
  from assms(1) consider "sublist p a" | "sublist p b"
    | xs1 xs2 where "p = xs1 @ xs2" "suffix xs1 a" "prefix xs2 b"
    unfolding sublist_append by blast
  then show ?thesis
  proof cases
    case 1
    then have "set p \<subseteq> set a" by (rule set_mono_sublist)
    with assms(2,3) show ?thesis by (cases p) auto
  next
    case 2
    then show ?thesis .
  next
    case 3
    show ?thesis
    proof (cases xs1)
      case Nil
      with 3 show ?thesis by auto
    next
      case (Cons x xs)
      with 3(1) have "hd p = x" by simp
      moreover from 3(2) Cons have "x \<in> set a" by (auto simp add: suffix_def)
      ultimately show ?thesis using assms(3) by simp
    qed
  qed
qed

lemma placeholder_facts:
  "placeholder \<noteq> []" "hd placeholder = 36" "QUOTE \<notin> set placeholder" "LF \<notin> set placeholder"
  by (simp_all add: placeholder_def str_def char_defs)

lemma placeholder_clean_line:
  assumes "sublist placeholder (clean_line line v)"
  shows "sublist placeholder v"
proof -
  let ?a = "takeWhile isspace line @ key_prefix @ [QUOTE]"
  have c: "clean_line line v = ?a @ (v @ [QUOTE])" by (simp add: clean_line_def)
  have "\<not> isspace 36" by (simp add: isspace_def)
  then have "36 \<notin> set (takeWhile isspace line)" using set_takeWhileD by metis
  moreover have "36 \<notin> set (key_prefix @ [QUOTE])" by (simp add: key_prefix_def str_def QUOTE_def)
  ultimately have "hd placeholder \<notin> set ?a" by (simp add: placeholder_facts)
  with assms c have "sublist placeholder (v @ [QUOTE])"
    using sublist_skip_left [of placeholder ?a "v @ [QUOTE]"] placeholder_facts(1) by simp
  then show ?thesis using placeholder_facts(3) by (rule sublist_snoc_sep)
qed

lemma normalize_lines_Inr:
  "normalize_lines ls = Inr ls' \<Longrightarrow>
   \<exists>pre line post g. ls = pre @ line # post \<and> ls' = pre @ clean_line line (strip g) # post \<and>
     prefix key_prefix (strip line) \<and> re_search line = Some g \<and> strip g \<noteq> []"
proof (induction ls arbitrary: ls')
  case Nil
  then show ?case by simp
next
  case (Cons l ls)
  show ?case
  proof (cases "prefix key_prefix (strip l) \<and> re_search l \<noteq> None")
    case True
    then obtain g where g: "re_search l = Some g" by auto
    with True Cons.prems have "strip g \<noteq> []" "ls' = clean_line l (strip g) # ls"
      by (auto split: if_splits)
    with True g have "l # ls = [] @ l # ls \<and> ls' = [] @ clean_line l (strip g) # ls \<and>
        prefix key_prefix (strip l) \<and> re_search l = Some g \<and> strip g \<noteq> []"
      by simp
    then show ?thesis by blast
  next
    case False
    then have step: "normalize_lines (l # ls) = map_sum id (Cons l) (normalize_lines ls)"
      by (cases "re_search l") auto
    with Cons.prems obtain t where t: "normalize_lines ls = Inr t" "ls' = l # t"
      by (cases "normalize_lines ls") auto
    from Cons.IH [OF t(1)] obtain pre line post g where
      "ls = pre @ line # post \<and> t = pre @ clean_line line (strip g) # post \<and>
       prefix key_prefix (strip line) \<and> re_search line = Some g \<and> strip g \<noteq> []"
      by blast
    then have "l # ls = (l # pre) @ line # post \<and>
        ls' = (l # pre) @ clean_line line (strip g) # post \<and>
        prefix key_prefix (strip line) \<and> re_search line = Some g \<and> strip g \<noteq> []"
      using t(2) by simp
    then show ?thesis by blast
  qed
qed

lemma join_Cons: "join sep (l # ls) = l @ (if ls = [] then [] else sep @ join sep ls)"
  by (cases ls) simp_all

lemma join_append:
  "join sep (pre @ l # post) = concat (map (\<lambda>x. x @ sep) pre) @ join sep (l # post)"
proof (induction pre)
  case Nil
  show ?case by simp
next
  case (Cons p pre)
  obtain y ys where y: "pre @ l # post = y # ys" by (cases "pre @ l # post") auto
  have "join sep (p # pre @ l # post) = p @ sep @ join sep (pre @ l # post)"
    unfolding y by simp
  with Cons show ?case by simp
qed

lemma join_set: "set (join sep ls) \<subseteq> set sep \<union> \<Union> (set ` set ls)"
  by (induction sep ls rule: join.induct) auto

lemma sublist_join:
  "sublist p (join [q] ls) \<Longrightarrow> q \<notin> set p \<Longrightarrow> p \<noteq> [] \<Longrightarrow> \<exists>l\<in>set ls. sublist p l"
proof (induction "[q]" ls rule: join.induct)
  case 1
  then show ?case by simp
next
  case (2 l)
  then show ?case by simp
next
  case (3 l m ls)
  from "3.prems"(1) have "sublist p (l @ q # join [q] (m # ls))" by simp
  then have "sublist p l \<or> sublist p (join [q] (m # ls))"
    using "3.prems"(2) by (rule sublist_split_sep)
  then show ?case
  proof
    assume "sublist p l"
    then show ?thesis by simp
  next
    assume "sublist p (join [q] (m # ls))"
    with 3 have "\<exists>l\<in>set (m # ls). sublist p l" by blast
    then show ?thesis by auto
  qed
qed

lemma suffix_single: "suffix [a] ys \<longleftrightarrow> ys \<noteq> [] \<and> last ys = a"
  by (cases ys rule: rev_cases) (auto simp add: suffix_def)

lemma join_output_alt:
  "join_output ls =
     (if join [LF] ls = [] \<or> last (join [LF] ls) = LF then join [LF] ls else join [LF] ls @ [LF])"
  by (auto simp add: join_output_def Let_def suffix_single)

lemma concat_lines_last:
  "ls \<noteq> [] \<Longrightarrow> concat (map (\<lambda>l. l @ [q]) ls) \<noteq> [] \<and> last (concat (map (\<lambda>l. l @ [q]) ls)) = q"
  by (induction ls rule: rev_induct) auto

lemma clean_line_last: "clean_line line v \<noteq> [] \<and> last (clean_line line v) = QUOTE"
  by (simp add: clean_line_def)

lemma join_output_form:
  "\<exists>rest. join_output (pre @ clean_line line v # post) =
     concat (map (\<lambda>l. l @ [LF]) pre) @ clean_line line v @ LF # rest"
proof (cases post)
  case Nil
  have j: "join [LF] (pre @ [clean_line line v]) =
      concat (map (\<lambda>l. l @ [LF]) pre) @ clean_line line v"
    by (simp add: join_append)
  have "QUOTE \<noteq> LF" by (simp add: char_defs)
  then have "join_output (pre @ [clean_line line v]) =
      concat (map (\<lambda>l. l @ [LF]) pre) @ clean_line line v @ [LF]"
    unfolding join_output_alt j using clean_line_last [of line v] by simp
  with Nil show ?thesis by simp
next
  case (Cons m ms)
  have j: "join [LF] (pre @ clean_line line v # post) =
      concat (map (\<lambda>l. l @ [LF]) pre) @ clean_line line v @ LF # join [LF] post"
    using Cons by (simp add: join_append)
  show ?thesis unfolding join_output_alt j by auto
qed


lemma list_all_takeWhile: "list_all P (takeWhile P xs)"
  by (induction xs) auto


lemma line_match_here_clean_line:
  assumes "v \<noteq> []" and "QUOTE \<notin> set v"
  shows "line_match_here (clean_line line v @ LF # rest)"
proof -
  have c: "clean_line line v @ LF # rest =
      takeWhile isspace line @ 100 # (str ''atabase_id = \"'' @ v @ [QUOTE] @ LF # rest)"
    by (simp add: clean_line_def key_prefix_def str_def QUOTE_def)
  have "\<not> isspace 100" by (simp add: isspace_def)
  then have "dropWhile isspace (clean_line line v @ LF # rest) =
      100 # (str ''atabase_id = \"'' @ v @ [QUOTE] @ LF # rest)"
    unfolding c using list_all_takeWhile by (rule dropWhile_run [rotated])
  also have "\<dots> = str ''database_id'' @ [32] @ [EQUALS] @ [32] @ [QUOTE] @ v @ [QUOTE] @ (LF # rest)"
    by (simp add: str_def char_defs)
  finally have d: "dropWhile isspace (clean_line line v @ LF # rest) =
      str ''database_id'' @ [32] @ [EQUALS] @ [32] @ [QUOTE] @ v @ [QUOTE] @ (LF # rest)" .
  have "list_all isspace [32]" by (simp add: isspace_def)
  with assms d have "pattern_match (dropWhile isspace (clean_line line v @ LF # rest)) v (LF # rest)"
    unfolding pattern_match_def by blast
  then have "match_pattern (dropWhile isspace (clean_line line v @ LF # rest)) = Some (v, LF # rest)"
    by (rule match_pattern_complete)
  moreover have "isspace LF" by (simp add: isspace_def LF_def)
  ultimately show ?thesis by (simp add: line_match_here_def)
qed

lemma line_search_at:
  assumes "line_match_here (c # s)"
  shows "(pre = [] \<and> b) \<or> (pre \<noteq> [] \<and> last pre = LF) \<Longrightarrow> line_search b (pre @ c # s)"
proof (induction pre arbitrary: b)
  case Nil
  with assms show ?case by simp
next
  case (Cons x pre)
  have "(pre = [] \<and> x = LF) \<or> (pre \<noteq> [] \<and> last pre = LF)"
    using Cons.prems by (cases "pre = []") auto
  then have "line_search (x = LF) (pre @ c # s)" by (rule Cons.IH)
  then show ?case by simp
qed

lemma substitute_Inr: "substitute db_id content = Inr sc \<Longrightarrow> \<not> sublist placeholder sc"
  by (auto simp add: substitute_def Let_def contains_iff_sublist split: if_splits)

lemma clean_line_no_linebreak:
  assumes "\<forall>x\<in>set line. \<not> linebreak x" and "set v \<subseteq> set line"
  shows "\<forall>x\<in>set (clean_line line v). \<not> linebreak x"
proof -
  have "\<forall>x\<in>set (key_prefix @ [QUOTE]). \<not> linebreak x"
    by (simp add: key_prefix_def str_def QUOTE_def linebreak_def)
  moreover have "set (takeWhile isspace line) \<subseteq> set line" by (rule set_takeWhileD [THEN conjunct1, THEN subsetI])
  ultimately show ?thesis using assms by (auto simp add: clean_line_def)
qed

lemma generate_Inr_full:
  assumes "generate db_id content = Inr out"
  shows "\<exists>pre line v post rest.
     out = join_output (pre @ clean_line line v # post) \<and>
     out = concat (map (\<lambda>l. l @ [LF]) pre) @ clean_line line v @ LF # rest \<and>
     v \<noteq> [] \<and> QUOTE \<notin> set v \<and>
     (\<forall>l\<in>set (pre @ clean_line line v # post).
        (\<forall>x\<in>set l. \<not> linebreak x) \<and> \<not> sublist placeholder l)"
proof -
  from assms obtain sc where sc: "substitute db_id content = Inr sc"
    by (cases "substitute db_id content") (auto simp add: generate_def)
  with assms obtain ls' where ls': "normalize_lines (splitlines sc) = Inr ls'" "out = join_output ls'"
    by (cases "normalize_lines (splitlines sc)") (auto simp add: generate_def)
  from normalize_lines_Inr [OF ls'(1)] obtain pre line post g where
    sp: "splitlines sc = pre @ line # post" and l: "ls' = pre @ clean_line line (strip g) # post"
    and g: "re_search line = Some g" and v: "strip g \<noteq> []"
    by blast
  let ?v = "strip g"
  let ?cl = "clean_line line ?v"
  have nosc: "\<not> sublist placeholder sc" using sc by (rule substitute_Inr)
  have old: "(\<forall>x\<in>set m. \<not> linebreak x) \<and> \<not> sublist placeholder m"
    if "m \<in> set (pre @ line # post)" for m
  proof -
    from that sp have m: "m \<in> set (splitlines sc)" by simp
    then have "sublist m sc" by (rule splitlines_sublist)
    then have "\<not> sublist placeholder m" using nosc sublist_trans by blast
    with m show ?thesis using splitlines_no_linebreak by blast
  qed
  have line: "(\<forall>x\<in>set line. \<not> linebreak x) \<and> \<not> sublist placeholder line"
    by (rule old) simp
  from g have gg: "sublist g line \<and> g \<noteq> [] \<and> QUOTE \<notin> set g" by (rule re_search_group)
  have vl: "sublist ?v line" using strip_sublist gg sublist_trans by blast
  then have sv: "set ?v \<subseteq> set line" by (rule set_mono_sublist)
  have "set ?v \<subseteq> set g" using strip_sublist by (rule set_mono_sublist)
  with gg have q: "QUOTE \<notin> set ?v" by auto
  have c1: "\<forall>x\<in>set ?cl. \<not> linebreak x"
    using line sv clean_line_no_linebreak [of line "strip g"] by blast
  have c2: "\<not> sublist placeholder ?cl"
  proof
    assume "sublist placeholder ?cl"
    then have "sublist placeholder ?v" by (rule placeholder_clean_line)
    then have "sublist placeholder line" using vl by (rule sublist_trans)
    with line show False by simp
  qed
  have all: "\<forall>l\<in>set (pre @ ?cl # post).
        (\<forall>x\<in>set l. \<not> linebreak x) \<and> \<not> sublist placeholder l"
  proof
    fix m assume "m \<in> set (pre @ ?cl # post)"
    then have "m = ?cl \<or> m \<in> set (pre @ line # post)" by auto
    then show "(\<forall>x\<in>set m. \<not> linebreak x) \<and> \<not> sublist placeholder m"
      using c1 c2 old by blast
  qed
  obtain rest where rest: "join_output (pre @ ?cl # post) =
      concat (map (\<lambda>l. l @ [LF]) pre) @ ?cl @ LF # rest"
    using join_output_form by blast
  from ls'(2) l rest v q all show ?thesis by blast
qed

lemma generated_linebreaks:
  assumes "generate db_id content = Inr out"
  shows "(\<forall>x\<in>set out. linebreak x \<longrightarrow> x = LF) \<and> out \<noteq> [] \<and> last out = LF"
proof -
  obtain pre line v post rest where
    o: "out = join_output (pre @ clean_line line v # post)"
    and f: "out = concat (map (\<lambda>l. l @ [LF]) pre) @ clean_line line v @ LF # rest"
    and a: "\<forall>l\<in>set (pre @ clean_line line v # post).
        (\<forall>x\<in>set l. \<not> linebreak x) \<and> \<not> sublist placeholder l"
    using generate_Inr_full [OF assms] by blast
  let ?ls = "pre @ clean_line line v # post"
  let ?J = "join [LF] ?ls"
  have n: "out \<noteq> []" using f by simp
  have j: "out = ?J \<and> (?J = [] \<or> last ?J = LF) \<or> out = ?J @ [LF]"
    unfolding o join_output_alt by simp
  have "set ?J \<subseteq> set [LF] \<union> \<Union> (set ` set ?ls)" by (rule join_set)
  with j have "set out \<subseteq> {LF} \<union> \<Union> (set ` set ?ls)" by auto
  with a have 1: "\<forall>x\<in>set out. linebreak x \<longrightarrow> x = LF" by blast
  from j n have 3: "last out = LF" by auto
  from 1 n 3 show ?thesis by simp
qed

lemma generated_no_placeholder:
  assumes "generate db_id content = Inr out"
  shows "\<not> sublist placeholder out"
proof
  assume s: "sublist placeholder out"
  obtain pre line v post rest where
    o: "out = join_output (pre @ clean_line line v # post)"
    and a: "\<forall>l\<in>set (pre @ clean_line line v # post).
        (\<forall>x\<in>set l. \<not> linebreak x) \<and> \<not> sublist placeholder l"
    using generate_Inr_full [OF assms] by blast
  let ?ls = "pre @ clean_line line v # post"
  let ?J = "join [LF] ?ls"
  have j: "out = ?J \<or> out = ?J @ [LF]"
    unfolding o join_output_alt by simp
  have "sublist placeholder ?J"
  proof (cases "out = ?J")
    case True
    with s show ?thesis by simp
  next
    case False
    with j s have "sublist placeholder (?J @ [LF])" by simp
    then show ?thesis using placeholder_facts(4) by (rule sublist_snoc_sep)
  qed
  then have "\<exists>l\<in>set ?ls. sublist placeholder l"
    using placeholder_facts(4) placeholder_facts(1) by (rule sublist_join)
  with a show False by blast
qed


lemma generated_verify:
  assumes "generate db_id content = Inr out"
  shows "verify (universal_newlines out) = []"
proof -
  obtain pre line v post rest where
    f: "out = concat (map (\<lambda>l. l @ [LF]) pre) @ clean_line line v @ LF # rest"
    and v: "v \<noteq> []" and q: "QUOTE \<notin> set v"
    and "out = join_output (pre @ clean_line line v # post)"
    using generate_Inr_full [OF assms] by blast
  have "CR \<noteq> LF" by (simp add: char_defs)
  then have "CR \<notin> set out" using generated_linebreaks [OF assms] linebreak_CR by blast
  then have u: "universal_newlines out = out" by (rule universal_newlines_id)
  let ?P = "concat (map (\<lambda>l. l @ [LF]) pre)"
  obtain c s where cs: "clean_line line v @ LF # rest = c # s"
    by (cases "clean_line line v @ LF # rest") simp_all
  have m: "line_match_here (c # s)"
    using line_match_here_clean_line [OF v q, of line rest] cs by simp
  have "(?P = [] \<and> True) \<or> (?P \<noteq> [] \<and> last ?P = LF)"
    using concat_lines_last [of pre LF] by (cases "pre = []") auto
  with m have "line_search True (?P @ c # s)" by (rule line_search_at)
  then have ls: "line_search True out" using f cs by simp
  have "\<not> contains placeholder out"
    using generated_no_placeholder [OF assms] by (simp add: contains_iff_sublist)
  with ls show ?thesis by (simp add: verify_def u)
qed

lemma main_writes:
  assumes "write_text_calls (main w) = [out]"
  shows "\<exists>ms db_id src s. resolve w = (ms, Inr (db_id, src)) \<and>
     wrangler_example_toml w = Content s \<and> generate db_id (universal_newlines s) = Inr out"
proof -
  obtain ms x where x: "resolve w = (ms, x)" by (cases "resolve w")
  show ?thesis
  proof (cases x)
    case (Inl e)
    with x assms show ?thesis by (simp add: main_def exit_early_def)
  next
    case (Inr p)
    obtain db_id src where p: "p = (db_id, src)" by (cases p)
    show ?thesis
    proof (cases "wrangler_example_toml w")
      case Absent
      with Inr p x assms show ?thesis by (simp add: main_def exit_early_def)
    next
      case Unreadable
      with Inr p x assms show ?thesis by (simp add: main_def exit_early_def)
    next
      case (Content s)
      show ?thesis
      proof (cases "generate db_id (universal_newlines s)")
        case (Inl e)
        with Content Inr p x assms show ?thesis by (simp add: main_def exit_early_def)
      next
        case g: (Inr t)
        with Content Inr p x assms have "t = out"
          by (simp add: main_def write_and_verify_def Let_def split: if_splits)
        with g Content Inr p x show ?thesis by simp
      qed
    qed
  qed
qed

lemma main_success:
  assumes "resolve w = (ms, Inr (db_id, src))"
    and "wrangler_example_toml w = Content s"
    and "generate db_id (universal_newlines s) = Inr out"
    and "wrangler_toml_writable w"
    and "encodable out"
  shows "main w = \<lparr>exit_status = 0,
     messages = ms @ announce db_id src @ [Info_creating, Info_success],
     write_text_calls = [out], world_after = w\<lparr>wrangler_toml := Content out\<rparr>\<rparr>"
  using assms generated_verify [OF assms(3)]
  by (simp add: main_def write_and_verify_def Let_def)

lemma crlf_generate:
  "generate (str ''env'') (str ''[[d1_databases]]'' @ [LF] @ str ''database_id = \"${D1_DATABASE_ID}\"'' @ [LF]) =
     Inr (str ''[[d1_databases]]'' @ [LF] @ str ''database_id = \"env\"'' @ [LF])"
proof -
  have s1: "substitute (str ''env'') (str ''[[d1_databases]]'' @ [LF] @ str ''database_id = \"${D1_DATABASE_ID}\"'' @ [LF]) =
      Inr (str ''[[d1_databases]]'' @ [LF] @ str ''database_id = \"env\"'' @ [LF])"
    by (simp add: substitute_def replace_def eval_defs)
  have s2: "splitlines (str ''[[d1_databases]]'' @ [LF] @ str ''database_id = \"env\"'' @ [LF]) =
      [str ''[[d1_databases]]'', str ''database_id = \"env\"'']"
    by (simp add: str_def linebreak_def char_defs)
  have s3: "normalize_lines [str ''[[d1_databases]]'', str ''database_id = \"env\"''] =
      Inr [str ''[[d1_databases]]'', str ''database_id = \"env\"'']"
    by (simp add: clean_line_def eval_defs)
  have s4: "join_output [str ''[[d1_databases]]'', str ''database_id = \"env\"''] =
      str ''[[d1_databases]]'' @ [LF] @ str ''database_id = \"env\"'' @ [LF]"
    by (simp add: join_output_def suffix_to_prefix str_def char_defs)
  show ?thesis by (simp only: generate_def s1 s2 s3 s4 sum.case)
qed

lemma crlf_world_main:
  "main crlf_world = \<lparr>exit_status = 0,
     messages = announce (str ''env'') Environment_variable @ [Info_creating, Info_success],
     write_text_calls = [str ''[[d1_databases]]'' @ [LF] @ str ''database_id = \"env\"'' @ [LF]],
     world_after = crlf_world\<lparr>wrangler_toml := Content (str ''[[d1_databases]]'' @ [LF] @ str ''database_id = \"env\"'' @ [LF])\<rparr>\<rparr>"
proof -
  have r: "resolve crlf_world = ([], Inr (str ''env'', Environment_variable))"
    by (simp add: crlf_world_def resolve_def lookup_def eval_defs)
  have e: "wrangler_example_toml crlf_world = Content (str ''[[d1_databases]]'' @ [CR, LF] @ str ''database_id = \"${D1_DATABASE_ID}\"'' @ [CR, LF])"
    by (simp add: crlf_world_def)
  have u: "universal_newlines (str ''[[d1_databases]]'' @ [CR, LF] @ str ''database_id = \"${D1_DATABASE_ID}\"'' @ [CR, LF]) =
      str ''[[d1_databases]]'' @ [LF] @ str ''database_id = \"${D1_DATABASE_ID}\"'' @ [LF]"
    by (simp add: str_def char_defs)
  have g: "generate (str ''env'') (universal_newlines (str ''[[d1_databases]]'' @ [CR, LF] @ str ''database_id = \"${D1_DATABASE_ID}\"'' @ [CR, LF])) =
      Inr (str ''[[d1_databases]]'' @ [LF] @ str ''database_id = \"env\"'' @ [LF])"
    by (simp only: u crlf_generate)
  have w: "wrangler_toml_writable crlf_world" by (simp add: crlf_world_def)
  have c: "encodable (str ''[[d1_databases]]'' @ [LF] @ str ''database_id = \"env\"'' @ [LF])"
    by (simp add: encodable_def str_def char_defs)
  show ?thesis using main_success [OF r e g w c] by simp
qed

lemma trailing_blank_generate:
  "generate (str ''env'') (str ''database_id = \"${D1_DATABASE_ID}\"'' @ [LF, LF, LF]) =
     Inr (str ''database_id = \"env\"'' @ [LF, LF])"
proof -
  have s1: "substitute (str ''env'') (str ''database_id = \"${D1_DATABASE_ID}\"'' @ [LF, LF, LF]) =
      Inr (str ''database_id = \"env\"'' @ [LF, LF, LF])"
    by (simp add: substitute_def replace_def eval_defs)
  have s2: "splitlines (str ''database_id = \"env\"'' @ [LF, LF, LF]) =
      [str ''database_id = \"env\"'', [], []]"
    by (simp add: str_def linebreak_def char_defs)
  have s3: "normalize_lines [str ''database_id = \"env\"'', [], []] =
      Inr [str ''database_id = \"env\"'', [], []]"
    by (simp add: clean_line_def eval_defs)
  have s4: "join_output [str ''database_id = \"env\"'', [], []] =
      str ''database_id = \"env\"'' @ [LF, LF]"
    by (simp add: join_output_def suffix_to_prefix str_def char_defs)
  show ?thesis by (simp only: generate_def s1 s2 s3 s4 sum.case)
qed

lemma trailing_blank_world_main:
  "main trailing_blank_world = \<lparr>exit_status = 0,
     messages = announce (str ''env'') Environment_variable @ [Info_creating, Info_success],
     write_text_calls = [str ''database_id = \"env\"'' @ [LF, LF]],
     world_after = trailing_blank_world\<lparr>wrangler_toml := Content (str ''database_id = \"env\"'' @ [LF, LF])\<rparr>\<rparr>"
proof -
  have r: "resolve trailing_blank_world = ([], Inr (str ''env'', Environment_variable))"
    by (simp add: trailing_blank_world_def resolve_def lookup_def eval_defs)
  have e: "wrangler_example_toml trailing_blank_world = Content (str ''database_id = \"${D1_DATABASE_ID}\"'' @ [LF, LF, LF])"
    by (simp add: trailing_blank_world_def)
  have u: "universal_newlines (str ''database_id = \"${D1_DATABASE_ID}\"'' @ [LF, LF, LF]) =
      str ''database_id = \"${D1_DATABASE_ID}\"'' @ [LF, LF, LF]"
    by (simp add: str_def char_defs)
  have g: "generate (str ''env'') (universal_newlines (str ''database_id = \"${D1_DATABASE_ID}\"'' @ [LF, LF, LF])) =
      Inr (str ''database_id = \"env\"'' @ [LF, LF])"
    by (simp only: u trailing_blank_generate)
  have w: "wrangler_toml_writable trailing_blank_world" by (simp add: trailing_blank_world_def)
  have c: "encodable (str ''database_id = \"env\"'' @ [LF, LF])"
    by (simp add: encodable_def str_def char_defs)
  show ?thesis using main_success [OF r e g w c] by simp
qed



text \<open>
  C10, as stated, fails: blank lines at the end of the template are not collapsed. A
  template that ends in three \<open>\n\<close> gives, in a run that ends with status 0, a text that
  ends in two.
\<close>

theorem trailing_blank_lines_kept:
  "wrangler_example_toml trailing_blank_world =
     Content (str ''database_id = \"${D1_DATABASE_ID}\"'' @ [LF, LF, LF]) \<and>
   exit_status (main trailing_blank_world) = 0 \<and>
   write_text_calls (main trailing_blank_world) =
     [str ''database_id = \"env\"'' @ [LF, LF]]"
proof -
  have e: "wrangler_example_toml trailing_blank_world =
     Content (str ''database_id = \"${D1_DATABASE_ID}\"'' @ [LF, LF, LF])"
    by (simp add: trailing_blank_world_def)
  have x: "exit_status (main trailing_blank_world) = 0"
    by (simp only: trailing_blank_world_main outcome.simps)
  have m: "write_text_calls (main trailing_blank_world) =
     [str ''database_id = \"env\"'' @ [LF, LF]]"
    by (simp only: trailing_blank_world_main outcome.simps)
  from e x m show ?thesis by (simp only: simp_thms)
qed

text \<open>
  C10, amended. The text handed to \<open>write_text\<close> holds no line boundary but \<open>\n\<close>, is
  not empty and ends in \<open>\n\<close>; it need not end in exactly one.
\<close>

theorem written_output_newlines:
  assumes "write_text_calls (main w) = [out]"
  shows "(\<forall>x\<in>set out. linebreak x \<longrightarrow> x = LF) \<and> out \<noteq> [] \<and> last out = LF"
proof -
  from main_writes [OF assms] obtain db_id s where
    "generate db_id (universal_newlines s) = Inr out" by blast
  then show ?thesis by (rule generated_linebreaks)
qed

theorem written_output_newlines_witness:
  "write_text_calls (main crlf_world) =
     [str ''[[d1_databases]]'' @ [LF] @ str ''database_id = \"env\"'' @ [LF]] \<and>
   CR \<notin> set (str ''[[d1_databases]]'' @ [LF] @ str ''database_id = \"env\"'' @ [LF]) \<and>
   last (str ''[[d1_databases]]'' @ [LF] @ str ''database_id = \"env\"'' @ [LF]) = LF"
proof -
  have m: "write_text_calls (main crlf_world) =
     [str ''[[d1_databases]]'' @ [LF] @ str ''database_id = \"env\"'' @ [LF]]"
    by (simp only: crlf_world_main outcome.simps)
  have "CR \<noteq> LF" by (simp add: char_defs)
  with written_output_newlines [OF m] m linebreak_CR show ?thesis by blast
qed






end
